theory Spec2Isabelle
  imports Main "HOL-Library.Sublist"
begin

section \<open>JavaScript primitives used by index.js\<close>

text \<open>
  Strings are character lists. The patterns searched for by the program are ASCII, so
  searching bytes and searching UTF-16 code units find the same occurrences.
\<close>

text \<open>
  \<^verbatim>\<open>String.prototype.indexOf(pat)\<close>: the position of the first occurrence of \<open>pat\<close>,
  \<open>None\<close> standing for the result \<open>-1\<close>.
\<close>

fun str_indexOf :: "string \<Rightarrow> string \<Rightarrow> nat option" where
  "str_indexOf [] pat = (if pat = [] then Some 0 else None)"
| "str_indexOf (c # cs) pat =
     (if prefix pat (c # cs) then Some 0 else map_option Suc (str_indexOf cs pat))"

text \<open>
  The expansion of a replacement string (GetSubstitution of ECMAScript) for a string
  pattern, which has no capture groups: \<open>$$\<close> is a dollar sign, \<open>$&\<close> the matched text,
  \<open>$`\<close> the text before the match and \<open>$'\<close> the text after it; every other character,
  also a dollar sign followed by anything else, stands for itself.
\<close>

fun get_substitution :: "string \<Rightarrow> string \<Rightarrow> string \<Rightarrow> string \<Rightarrow> string" where
  "get_substitution matched preceding following [] = []"
| "get_substitution matched preceding following [c] = [c]"
| "get_substitution matched preceding following (c # d # ds) =
     (if c = CHR ''$'' \<and> d = CHR ''$'' then CHR ''$'' # get_substitution matched preceding following ds
      else if c = CHR ''$'' \<and> d = CHR ''&'' then matched @ get_substitution matched preceding following ds
      else if c = CHR ''$'' \<and> d = CHR 0x60 then preceding @ get_substitution matched preceding following ds
      else if c = CHR ''$'' \<and> d = CHR 0x27 then following @ get_substitution matched preceding following ds
      else c # get_substitution matched preceding following (d # ds))"

text \<open>
  \<^verbatim>\<open>s.replace(pat, repl)\<close> with a string pattern: only the first occurrence of \<open>pat\<close> is
  replaced, and a string in which \<open>pat\<close> does not occur is returned as it is.
\<close>

definition str_replace :: "string \<Rightarrow> string \<Rightarrow> string \<Rightarrow> string" where
  "str_replace s pat repl =
     (case str_indexOf s pat of
        None \<Rightarrow> s
      | Some i \<Rightarrow>
          take i s
          @ get_substitution pat (take i s) (drop (i + length pat) s) repl
          @ drop (i + length pat) s)"

text \<open>
  \<^verbatim>\<open>path.basename(p)\<close> (POSIX): trailing slashes are dropped, and what follows the last
  remaining slash is returned.
\<close>

definition basename :: "string \<Rightarrow> string" where
  "basename p =
     rev (takeWhile (\<lambda>c. c \<noteq> CHR ''/'') (dropWhile (\<lambda>c. c = CHR ''/'') (rev p)))"

text \<open>\<^verbatim>\<open>Array.prototype.indexOf(x)\<close>: the first index holding \<open>x\<close>, or \<open>-1\<close>.\<close>

fun indexOf :: "'a list \<Rightarrow> 'a \<Rightarrow> int" where
  "indexOf [] x = - 1"
| "indexOf (y # ys) x =
     (if y = x then 0
      else (if indexOf ys x < 0 then - 1 else indexOf ys x + 1))"

text \<open>
  \<^verbatim>\<open>Array.prototype.splice(start, deleteCount)\<close>, as the array it leaves behind: a negative
  \<open>start\<close> counts from the end, and both arguments are clamped to the array.
\<close>

definition splice :: "'a list \<Rightarrow> int \<Rightarrow> int \<Rightarrow> 'a list" where
  "splice xs start deleteCount =
     (let len = int (length xs);
          s = (if start < 0 then max (len + start) 0 else min start len);
          d = min (max deleteCount 0) (len - s)
      in take (nat s) xs @ drop (nat (s + d)) xs)"

text \<open>\<^verbatim>\<open>Array.prototype.push(x)\<close>, as the array it leaves behind.\<close>

definition push :: "'a list \<Rightarrow> 'a \<Rightarrow> 'a list" where
  "push xs x = xs @ [x]"


section \<open>The state of the server\<close>

datatype console_line = Console_log string | Console_error string

text \<open>
  The module-level variable \<open>dots\<close>, the regular files of the file system by path, the
  processes spawned, the lines printed, and the calls of \<^verbatim>\<open>liveReloadServer.refresh\<close>
  (each with its argument).
\<close>

record world =
  dots :: "string list"
  files :: "string \<rightharpoonup> string"
  spawned :: "(string \<times> string list) list"
  console :: "console_line list"
  refreshes :: "string list"

text \<open>The state in which the server starts: \<open>dots = []\<close> and an output directory made anew.\<close>

definition start_world :: world where
  "start_world = \<lparr>dots = [], files = Map.empty, spawned = [], console = [], refreshes = []\<rparr>"

definition existsSync :: "world \<Rightarrow> string \<Rightarrow> bool" where
  "existsSync w p = (files w p \<noteq> None)"

text \<open>\<^verbatim>\<open>fs.rmSync(p)\<close> without \<open>force\<close>: removing a path that does not exist throws.\<close>

definition rmSync :: "world \<Rightarrow> string \<Rightarrow> string + world" where
  "rmSync w p =
     (if files w p = None then Inl ''ENOENT''
      else Inr (w\<lparr>files := (files w)(p := None)\<rparr>))"

text \<open>
  What the file system answers to the two asynchronous calls of the add branch: the
  result of reading the template (\<open>Inl\<close> the error), and the result of writing the wrapper
  page (on failure the error, and what the failed write left at the path).
\<close>

datatype write_result = Write_ok | Write_failed string "string option"

text \<open>
  What the spawned renderer does. The program \<open>dot\<close> is outside the repository; section 6
  of the specification gives its boundary: it produces an image file at the path it is
  given, and its failures are seen only as an image that never appears. The process runs
  beside the callbacks, so its file lands before or after the write of the wrapper page.
\<close>

datatype render_result = No_image | Image_before string | Image_after string

fun render_before :: "render_result \<Rightarrow> string \<Rightarrow> (string \<rightharpoonup> string) \<Rightarrow> (string \<rightharpoonup> string)" where
  "render_before (Image_before img) p fs = fs(p \<mapsto> img)"
| "render_before No_image p fs = fs"
| "render_before (Image_after img) p fs = fs"

fun render_after :: "render_result \<Rightarrow> string \<Rightarrow> (string \<rightharpoonup> string) \<Rightarrow> (string \<rightharpoonup> string)" where
  "render_after (Image_after img) p fs = fs(p \<mapsto> img)"
| "render_after No_image p fs = fs"
| "render_after (Image_before img) p fs = fs"

record io_env =
  template_read :: "string + string"
  page_write :: write_result
  rendering :: render_result


section \<open>The source watcher callback (index.js, lines 30 to 63)\<close>

definition svgDir :: string where
  "svgDir = ''./public/svg/''"

definition svg_file :: "string \<Rightarrow> string" where
  "svg_file dotFile = svgDir @ str_replace (basename dotFile) ''.dot'' ''.svg''"

definition html_file :: "string \<Rightarrow> string" where
  "html_file dotFile = svgDir @ str_replace (basename dotFile) ''.dot'' ''.html''"

definition graphHtml :: "string \<Rightarrow> string \<Rightarrow> string" where
  "graphHtml template dotFile =
     str_replace template ''{{ svg_file_path }}''
       (str_replace (basename dotFile) ''.dot'' ''.svg'')"

text \<open>
  One event of the watcher on the description files, with the callbacks it schedules and
  the renderer it spawns run to their end. \<open>Inl\<close> is an exception thrown inside the
  handler.
\<close>

definition source_watcher :: "io_env \<Rightarrow> string \<Rightarrow> string \<Rightarrow> world \<Rightarrow> string + world" where
  "source_watcher env event dotFile w =
     (if event = ''add'' then
        (let w1 = w\<lparr>spawned := spawned w
                      @ [(''dot'', [''-Tsvg'', dotFile, ''-o'', svg_file dotFile])],
                    files := render_before (rendering env) (svg_file dotFile) (files w)\<rparr>
         in case template_read env of
              Inl err \<Rightarrow>
                Inr (w1\<lparr>files := render_after (rendering env) (svg_file dotFile) (files w1),
                         console := console w1 @ [Console_error err]\<rparr>)
            | Inr template \<Rightarrow>
                (case page_write env of
                   Write_failed err left \<Rightarrow>
                     Inr (w1\<lparr>files := render_after (rendering env) (svg_file dotFile)
                                ((files w1)(html_file dotFile := left)),
                              console := console w1 @ [Console_error err]\<rparr>)
                 | Write_ok \<Rightarrow>
                     Inr (w1\<lparr>files := render_after (rendering env) (svg_file dotFile)
                                ((files w1)(html_file dotFile \<mapsto> graphHtml template dotFile)),
                              console := console w1
                                @ [Console_log (html_file dotFile @ '' has been saved!'')]\<rparr>)))
      else if event = ''unlink'' then
        (case (if existsSync w (svg_file dotFile) then rmSync w (svg_file dotFile) else Inr w) of
           Inl e \<Rightarrow> Inl e
         | Inr w1 \<Rightarrow>
             (if existsSync w1 (html_file dotFile) then rmSync w1 (html_file dotFile)
              else Inr w1))
      else Inr w)"


section \<open>The registry watcher callback (index.js, lines 65 to 74)\<close>

definition entry_of :: "string \<Rightarrow> string" where
  "entry_of path = str_replace path ''public/'' ''''"

definition registry_watcher :: "string \<Rightarrow> string \<Rightarrow> world \<Rightarrow> world" where
  "registry_watcher event path w =
     (let html_file = entry_of path;
          index = indexOf (dots w) html_file;
          w1 = (if event = ''add'' \<and> index < 0 then w\<lparr>dots := push (dots w) html_file\<rparr>
                else if event = ''unlink'' \<and> index \<ge> 0 then w\<lparr>dots := splice (dots w) index 1\<rparr>
                else w)
      in w1\<lparr>refreshes := refreshes w1 @ [''/'']\<rparr>)"

text \<open>A sequence of events of the registry watcher, applied in the order observed.\<close>

fun registry_events :: "(string \<times> string) list \<Rightarrow> world \<Rightarrow> world" where
  "registry_events [] w = w"
| "registry_events ((event, path) # evs) w = registry_events evs (registry_watcher event path w)"

text \<open>The list handed to the index page: \<^verbatim>\<open>res.render('index', {dots})\<close>.\<close>

definition snapshot :: "world \<Rightarrow> string list" where
  "snapshot w = dots w"

section \<open>Notions of the specification\<close>

text \<open>
  The number of events of one kind (\<open>add\<close> or \<open>unlink\<close>) in a sequence whose path gives
  the registry entry \<open>entry\<close>, and the net count of an entry: its adds minus its removals.
\<close>

fun count_events :: "string \<Rightarrow> string \<Rightarrow> (string \<times> string) list \<Rightarrow> nat" where
  "count_events kind entry [] = 0"
| "count_events kind entry ((event, path) # evs) =
     (if event = kind \<and> entry_of path = entry then 1 else 0) + count_events kind entry evs"

definition net_count :: "string \<Rightarrow> (string \<times> string) list \<Rightarrow> int" where
  "net_count entry evs =
     int (count_events ''add'' entry evs) - int (count_events ''unlink'' entry evs)"

text \<open>
  The ordering the watchers promise for one path: its adds and removals alternate, an add
  coming only when the path is not there and a removal only when it is.
\<close>

fun same_path_ordered :: "bool \<Rightarrow> string \<Rightarrow> (string \<times> string) list \<Rightarrow> bool" where
  "same_path_ordered present entry [] = True"
| "same_path_ordered present entry ((event, path) # evs) =
     (if entry_of path = entry \<and> event = ''add''
        then \<not> present \<and> same_path_ordered True entry evs
      else if entry_of path = entry \<and> event = ''unlink''
        then present \<and> same_path_ordered False entry evs
      else same_path_ordered present entry evs)"

text \<open>
  Whether the entry is there after the sequence, read off the events alone: the last add or
  removal of the entry decides, and \<open>present\<close> when there is none.
\<close>

fun last_is_add :: "bool \<Rightarrow> string \<Rightarrow> (string \<times> string) list \<Rightarrow> bool" where
  "last_is_add present entry [] = present"
| "last_is_add present entry ((event, path) # evs) =
     last_is_add
       (if entry_of path = entry \<and> event = ''add'' then True
        else if entry_of path = entry \<and> event = ''unlink'' then False
        else present)
       entry evs"

text \<open>Whether no event of the sequence removes the entry.\<close>

fun never_removed :: "(string \<times> string) list \<Rightarrow> string \<Rightarrow> bool" where
  "never_removed [] entry = True"
| "never_removed ((event, path) # evs) entry =
     (\<not> (event = ''unlink'' \<and> entry_of path = entry) \<and> never_removed evs entry)"

text \<open>The number of positions of \<open>s\<close> at which \<open>pat\<close> occurs.\<close>

definition occurrences :: "string \<Rightarrow> string \<Rightarrow> nat" where
  "occurrences s pat = length (filter (\<lambda>i. prefix pat (drop i s)) [0..<Suc (length s)])"


section \<open>Facts about the array primitives\<close>

lemma indexOf_neg: "indexOf xs x < 0 \<longleftrightarrow> x \<notin> set xs"
  by (induction xs) auto

lemma indexOf_nonneg: "0 \<le> indexOf xs x \<longleftrightarrow> x \<in> set xs"
  using indexOf_neg [of xs x] by auto

lemma indexOf_bound: "indexOf xs x < int (length xs)"
  by (induction xs) auto

lemma take_drop_indexOf:
  "x \<in> set xs \<Longrightarrow> take (nat (indexOf xs x)) xs @ drop (nat (indexOf xs x + 1)) xs = remove1 x xs"
proof (induction xs)
  case Nil
  then show ?case by simp
next
  case (Cons y ys)
  show ?case
  proof (cases "y = x")
    case True
    then show ?thesis by simp
  next
    case False
    with Cons.prems have mem: "x \<in> set ys" by simp
    then have nn: "0 \<le> indexOf ys x" by (simp add: indexOf_nonneg)
    then have "nat (indexOf ys x + 1) = Suc (nat (indexOf ys x))"
      and "nat (indexOf ys x + 1 + 1) = Suc (Suc (nat (indexOf ys x)))" by simp_all
    with False mem nn Cons.IH show ?thesis
      by (simp add: indexOf_neg)
  qed
qed

lemma splice_indexOf: "x \<in> set xs \<Longrightarrow> splice xs (indexOf xs x) 1 = remove1 x xs"
proof -
  assume mem: "x \<in> set xs"
  have nn: "0 \<le> indexOf xs x" using mem by (simp add: indexOf_nonneg)
  have lt: "indexOf xs x < int (length xs)" by (rule indexOf_bound)
  have "splice xs (indexOf xs x) 1
        = take (nat (indexOf xs x)) xs @ drop (nat (indexOf xs x + 1)) xs"
    using nn lt by (simp add: splice_def Let_def min_def max_def)
  then show ?thesis using mem by (simp add: take_drop_indexOf)
qed

lemma dots_registry_watcher:
  "dots (registry_watcher event path w) =
     (if event = ''add'' \<and> entry_of path \<notin> set (dots w) then dots w @ [entry_of path]
      else if event = ''unlink'' \<and> entry_of path \<in> set (dots w)
        then remove1 (entry_of path) (dots w)
      else dots w)"
  by (simp add: registry_watcher_def Let_def indexOf_neg indexOf_nonneg splice_indexOf push_def)

lemma refreshes_registry_watcher:
  "refreshes (registry_watcher event path w) = refreshes w @ [''/'']"
  by (simp add: registry_watcher_def Let_def)

lemma registry_events_append:
  "registry_events (evs1 @ evs2) w = registry_events evs2 (registry_events evs1 w)"
  by (induction evs1 arbitrary: w) auto

lemma distinct_registry_watcher:
  "distinct (dots w) \<Longrightarrow> distinct (dots (registry_watcher event path w))"
  by (simp add: dots_registry_watcher)

lemma distinct_registry_events:
  "distinct (dots w) \<Longrightarrow> distinct (dots (registry_events evs w))"
  by (induction evs arbitrary: w) (auto simp: distinct_registry_watcher)

lemma mem_registry_events:
  "distinct (dots w) \<Longrightarrow>
   entry \<in> set (dots (registry_events evs w)) \<longleftrightarrow> last_is_add (entry \<in> set (dots w)) entry evs"
proof (induction evs arbitrary: w)
  case Nil
  then show ?case by simp
next
  case (Cons ev evs)
  obtain event path where ev: "ev = (event, path)" by (cases ev)
  have d: "distinct (dots (registry_watcher event path w))"
    using Cons.prems by (rule distinct_registry_watcher)
  have step: "entry \<in> set (dots (registry_watcher event path w)) \<longleftrightarrow>
      (if entry_of path = entry \<and> event = ''add'' then True
       else if entry_of path = entry \<and> event = ''unlink'' then False
       else entry \<in> set (dots w))"
    using Cons.prems by (auto simp: dots_registry_watcher)
  show ?case
    using Cons.IH [OF d] step by (simp add: ev)
qed

lemma net_count_Cons:
  "net_count entry ((event, path) # evs) =
     (if entry_of path = entry \<and> event = ''add'' then 1 else 0)
     - (if entry_of path = entry \<and> event = ''unlink'' then 1 else 0)
     + net_count entry evs"
  by (simp add: net_count_def)

lemma last_is_add_net:
  "same_path_ordered present entry evs \<Longrightarrow>
   last_is_add present entry evs \<longleftrightarrow> (present \<noteq> odd (net_count entry evs))"
proof (induction evs arbitrary: present)
  case Nil
  then show ?case by (simp add: net_count_def)
next
  case (Cons ev evs)
  obtain event path where ev: "ev = (event, path)" by (cases ev)
  show ?case
    using Cons.prems Cons.IH [of True] Cons.IH [of False] Cons.IH [of present]
    by (auto simp: ev net_count_Cons split: if_splits)
qed

lemma filter_remove1_other: "\<not> P x \<Longrightarrow> filter P (remove1 x xs) = filter P xs"
  by (induction xs) auto

lemma filter_registry_events:
  "S \<subseteq> set (dots w) \<Longrightarrow>
   \<forall>e\<in>set evs. \<not> (fst e = ''unlink'' \<and> entry_of (snd e) \<in> S) \<Longrightarrow>
   filter (\<lambda>x. x \<in> S) (dots (registry_events evs w)) = filter (\<lambda>x. x \<in> S) (dots w)"
proof (induction evs arbitrary: w)
  case Nil
  then show ?case by simp
next
  case (Cons ev evs)
  obtain event path where ev: "ev = (event, path)" by (cases ev)
  let ?w = "registry_watcher event path w"
  have keep: "\<not> (event = ''unlink'' \<and> entry_of path \<in> S)"
    using Cons.prems(2) by (simp add: ev)
  have sub: "S \<subseteq> set (dots ?w)"
  proof
    fix x assume x: "x \<in> S"
    then have "x \<in> set (dots w)" using Cons.prems(1) by auto
    moreover have "event = ''unlink'' \<Longrightarrow> x \<noteq> entry_of path" using keep x by auto
    ultimately show "x \<in> set (dots ?w)"
      by (auto simp: dots_registry_watcher)
  qed
  have same: "filter (\<lambda>x. x \<in> S) (dots ?w) = filter (\<lambda>x. x \<in> S) (dots w)"
    using Cons.prems(1) keep by (auto simp: dots_registry_watcher filter_remove1_other)
  have rest: "\<forall>e\<in>set evs. \<not> (fst e = ''unlink'' \<and> entry_of (snd e) \<in> S)"
    using Cons.prems(2) by simp
  show ?case
    using Cons.IH [OF sub rest] same by (simp add: ev)
qed

lemma subseq_remove1: "subseq (remove1 x xs) xs"
  by (induction xs) auto

lemma entry_of_a: "entry_of ''public/svg/a.html'' = ''svg/a.html''"
  by (simp add: entry_of_def str_replace_def)

lemma entry_of_b: "entry_of ''public/svg/b.html'' = ''svg/b.html''"
  by (simp add: entry_of_def str_replace_def)

section \<open>The registry and the refresh signal\<close>

text \<open>
  Claim C1, as stated, fails: the second add of a path that is already in the registry
  leaves the registry as it is and still calls \<^verbatim>\<open>liveReloadServer.refresh\<close> once.
\<close>

theorem C1_refresh_on_noop_counterexample:
  "dots (registry_watcher ''add'' ''public/svg/a.html''
           (registry_watcher ''add'' ''public/svg/a.html'' start_world))
     = dots (registry_watcher ''add'' ''public/svg/a.html'' start_world)
   \<and> length (refreshes (registry_watcher ''add'' ''public/svg/a.html''
                (registry_watcher ''add'' ''public/svg/a.html'' start_world)))
     = length (refreshes (registry_watcher ''add'' ''public/svg/a.html'' start_world)) + 1"
  by (simp add: dots_registry_watcher refreshes_registry_watcher)

text \<open>
  Claim C1, amended: every event of the registry watcher, whatever its kind and whether or
  not it changes the registry, emits exactly one refresh signal (for the path \<open>/\<close>); a
  sequence of events emits as many signals as it has events.
\<close>

theorem C1_refresh_every_event:
  "refreshes (registry_watcher event path w) = refreshes w @ [''/'']
   \<and> length (refreshes (registry_events evs w)) = length (refreshes w) + length evs"
proof
  show "refreshes (registry_watcher event path w) = refreshes w @ [''/'']"
    by (rule refreshes_registry_watcher)
  show "length (refreshes (registry_events evs w)) = length (refreshes w) + length evs"
    by (induction evs arbitrary: w) (auto simp: refreshes_registry_watcher)
qed

text \<open>A \<open>change\<close> event leaves the registry alone and emits its one signal.\<close>

theorem C1_refresh_every_event_witness:
  "refreshes (registry_watcher ''change'' ''public/svg/a.html'' start_world) = [''/'']
   \<and> dots (registry_watcher ''change'' ''public/svg/a.html'' start_world) = dots start_world"
  using C1_refresh_every_event [of "''change''" "''public/svg/a.html''" start_world "[]"]
  by (simp add: start_world_def dots_registry_watcher)

text \<open>
  Claim C2, as stated, fails: after two adds of the same path the entry is in the
  registry, while both its net count and its number of adds are even.
\<close>

theorem C2_counterexample:
  "''svg/a.html'' \<in> set (dots (registry_events
       [(''add'', ''public/svg/a.html''), (''add'', ''public/svg/a.html'')] start_world))
   \<and> \<not> odd (net_count ''svg/a.html''
       [(''add'', ''public/svg/a.html''), (''add'', ''public/svg/a.html'')])
   \<and> \<not> odd (count_events ''add'' ''svg/a.html''
       [(''add'', ''public/svg/a.html''), (''add'', ''public/svg/a.html'')])"
  by (simp add: dots_registry_watcher entry_of_a net_count_def start_world_def)

text \<open>
  Claim C2, amended: from the empty registry, an entry is in the final registry exactly
  when its last add or removal is an add; for a sequence that keeps the same-path ordering
  of the watcher this is exactly when its net count is odd. The registry holds no entry
  twice, a second add of a path adds nothing, and the removal of an absent path changes
  nothing.
\<close>

theorem C2_final_entries:
  assumes "dots w = []"
  shows "(entry \<in> set (dots (registry_events evs w)) \<longleftrightarrow> last_is_add False entry evs)
    \<and> (same_path_ordered False entry evs \<longrightarrow>
         (entry \<in> set (dots (registry_events evs w)) \<longleftrightarrow> odd (net_count entry evs)))
    \<and> distinct (dots (registry_events evs w))
    \<and> dots (registry_events (evs @ [(''add'', path), (''add'', path)]) w)
        = dots (registry_events (evs @ [(''add'', path)]) w)
    \<and> (entry_of path \<notin> set (dots (registry_events evs w)) \<longrightarrow>
         dots (registry_events (evs @ [(''unlink'', path)]) w) = dots (registry_events evs w))"
proof -
  have d: "distinct (dots w)" using assms by simp
  have m: "entry \<in> set (dots (registry_events evs w)) \<longleftrightarrow> last_is_add False entry evs"
    using mem_registry_events [OF d, of entry evs] assms by simp
  have n: "same_path_ordered False entry evs \<longrightarrow>
         (entry \<in> set (dots (registry_events evs w)) \<longleftrightarrow> odd (net_count entry evs))"
    using m last_is_add_net [of False entry evs] by simp
  have dd: "distinct (dots (registry_events evs w))"
    using d by (rule distinct_registry_events)
  have dup: "dots (registry_events (evs @ [(''add'', path), (''add'', path)]) w)
        = dots (registry_events (evs @ [(''add'', path)]) w)"
    by (simp add: registry_events_append dots_registry_watcher)
  have rm: "entry_of path \<notin> set (dots (registry_events evs w)) \<longrightarrow>
         dots (registry_events (evs @ [(''unlink'', path)]) w) = dots (registry_events evs w)"
    by (simp add: registry_events_append dots_registry_watcher)
  from m n dd dup rm show ?thesis by blast
qed

text \<open>The sequence add a, add b, remove a, add a, and the removal of an absent c after it.\<close>

theorem C2_final_entries_witness:
  "dots start_world = []
   \<and> same_path_ordered False ''svg/a.html''
       [(''add'', ''public/svg/a.html''), (''add'', ''public/svg/b.html''),
        (''unlink'', ''public/svg/a.html''), (''add'', ''public/svg/a.html'')]
   \<and> odd (net_count ''svg/a.html''
       [(''add'', ''public/svg/a.html''), (''add'', ''public/svg/b.html''),
        (''unlink'', ''public/svg/a.html''), (''add'', ''public/svg/a.html'')])
   \<and> ''svg/a.html'' \<in> set (dots (registry_events
       [(''add'', ''public/svg/a.html''), (''add'', ''public/svg/b.html''),
        (''unlink'', ''public/svg/a.html''), (''add'', ''public/svg/a.html'')] start_world))
   \<and> entry_of ''public/svg/c.html'' \<notin> set (dots (registry_events
       [(''add'', ''public/svg/a.html''), (''add'', ''public/svg/b.html''),
        (''unlink'', ''public/svg/a.html''), (''add'', ''public/svg/a.html'')] start_world))
   \<and> dots (registry_events
       ([(''add'', ''public/svg/a.html''), (''add'', ''public/svg/b.html''),
        (''unlink'', ''public/svg/a.html''), (''add'', ''public/svg/a.html'')]
        @ [(''unlink'', ''public/svg/c.html'')]) start_world)
     = dots (registry_events
       [(''add'', ''public/svg/a.html''), (''add'', ''public/svg/b.html''),
        (''unlink'', ''public/svg/a.html''), (''add'', ''public/svg/a.html'')] start_world)"
proof -
  have e: "dots start_world = []" by (simp add: start_world_def)
  have c: "entry_of ''public/svg/c.html'' = ''svg/c.html''"
    by (simp add: entry_of_def str_replace_def)
  have o: "same_path_ordered False ''svg/a.html''
       [(''add'', ''public/svg/a.html''), (''add'', ''public/svg/b.html''),
        (''unlink'', ''public/svg/a.html''), (''add'', ''public/svg/a.html'')]"
    by (simp add: entry_of_a entry_of_b)
  have l: "dots (registry_events
       [(''add'', ''public/svg/a.html''), (''add'', ''public/svg/b.html''),
        (''unlink'', ''public/svg/a.html''), (''add'', ''public/svg/a.html'')] start_world)
      = [''svg/b.html'', ''svg/a.html'']"
    by (simp add: dots_registry_watcher entry_of_a entry_of_b start_world_def)
  show ?thesis
    using C2_final_entries [OF e, of "''svg/a.html''"
        "[(''add'', ''public/svg/a.html''), (''add'', ''public/svg/b.html''),
          (''unlink'', ''public/svg/a.html''), (''add'', ''public/svg/a.html'')]"
        "''public/svg/c.html''"] e o l c
    by simp
qed

lemma filter_without_absent:
  "e \<notin> set xs \<Longrightarrow> filter (\<lambda>x. e \<noteq> x \<and> P x) xs = filter P xs"
  by (induction xs) auto

lemma never_removed_remove1:
  "distinct xs \<Longrightarrow>
   filter (never_removed evs) (remove1 e xs)
     = filter (\<lambda>x. e \<noteq> x \<and> never_removed evs x) xs"
  by (induction xs) (auto simp: filter_without_absent)

lemma registry_events_kept_first:
  "distinct (dots w) \<Longrightarrow>
   \<exists>later. dots (registry_events evs w) = filter (never_removed evs) (dots w) @ later
     \<and> (\<forall>x\<in>set later. \<not> (x \<in> set (dots w) \<and> never_removed evs x))"
proof (induction evs arbitrary: w)
  case Nil
  then show ?case by simp
next
  case (Cons ev evs)
  obtain event path where ev: "ev = (event, path)" by (cases ev)
  let ?e = "entry_of path"
  let ?w = "registry_watcher event path w"
  have d: "distinct (dots ?w)"
    using Cons.prems by (rule distinct_registry_watcher)
  obtain later where
    eq: "dots (registry_events evs ?w) = filter (never_removed evs) (dots ?w) @ later"
    and rest: "\<forall>x\<in>set later. \<not> (x \<in> set (dots ?w) \<and> never_removed evs x)"
    using Cons.IH [OF d] by blast
  have run: "dots (registry_events (ev # evs) w) = filter (never_removed evs) (dots ?w) @ later"
    using eq by (simp add: ev)
  consider (appended) "event = ''add''" "?e \<notin> set (dots w)"
    | (removed) "event = ''unlink''" "?e \<in> set (dots w)"
    | (kept) "dots ?w = dots w" "event = ''unlink'' \<longrightarrow> ?e \<notin> set (dots w)"
  proof (cases "event = ''add'' \<and> ?e \<notin> set (dots w)")
    case True
    then show ?thesis using appended by blast
  next
    case False
    note not_appended = this
    show ?thesis
    proof (cases "event = ''unlink'' \<and> ?e \<in> set (dots w)")
      case True
      then show ?thesis using removed by blast
    next
      case False
      with not_appended have "dots ?w = dots w"
        by (auto simp: dots_registry_watcher)
      with False show ?thesis using kept by blast
    qed
  qed
  then show ?case
  proof cases
    case appended
    then have step: "dots ?w = dots w @ [?e]"
      by (simp add: dots_registry_watcher)
    have same: "never_removed (ev # evs) = never_removed evs"
      using appended(1) by (auto simp: ev)
    have "dots (registry_events (ev # evs) w)
        = filter (never_removed (ev # evs)) (dots w) @ (filter (never_removed evs) [?e] @ later)"
      unfolding run same step by simp
    moreover have "\<forall>x\<in>set (filter (never_removed evs) [?e] @ later).
        \<not> (x \<in> set (dots w) \<and> never_removed (ev # evs) x)"
      unfolding same using rest appended(2) by (auto simp: step)
    ultimately show ?thesis by blast
  next
    case removed
    then have step: "dots ?w = remove1 ?e (dots w)"
      by (simp add: dots_registry_watcher)
    have nr: "never_removed (ev # evs) = (\<lambda>x. ?e \<noteq> x \<and> never_removed evs x)"
      using removed(1) by (auto simp: ev)
    have "dots (registry_events (ev # evs) w)
        = filter (never_removed (ev # evs)) (dots w) @ later"
      unfolding run nr step using Cons.prems by (simp add: never_removed_remove1)
    moreover have "\<forall>x\<in>set later. \<not> (x \<in> set (dots w) \<and> never_removed (ev # evs) x)"
      unfolding nr using rest Cons.prems by (auto simp: step)
    ultimately show ?thesis by blast
  next
    case kept
    have nr: "\<forall>x\<in>set (dots w). never_removed (ev # evs) x = never_removed evs x"
      using kept(2) by (auto simp: ev)
    then have f: "filter (never_removed (ev # evs)) (dots w) = filter (never_removed evs) (dots w)"
      by (intro filter_cong) simp_all
    have "dots (registry_events (ev # evs) w)
        = filter (never_removed (ev # evs)) (dots w) @ later"
      unfolding run f kept(1) by simp
    moreover have "\<forall>x\<in>set later. \<not> (x \<in> set (dots w) \<and> never_removed (ev # evs) x)"
      using rest nr by (auto simp: kept(1))
    ultimately show ?thesis by blast
  qed
qed

text \<open>
  Claim C3: after every sequence of events applied to the empty registry, the snapshot
  shown to viewers holds no entry twice. The entries of any set \<open>S\<close> that are in the
  registry at some point and are not removed by the events that follow keep their order,
  whatever those events do to other paths. And the snapshot is in insertion order: the
  entries that the following events never remove stand first, in the order they had, and
  whatever those events insert, a removed entry that comes back included, stands after
  them.
\<close>

theorem C3_no_duplicates_insertion_order:
  assumes "dots w = []"
  shows "distinct (snapshot (registry_events (evs1 @ evs2) w))
    \<and> (S \<subseteq> set (snapshot (registry_events evs1 w))
         \<and> (\<forall>e\<in>set evs2. \<not> (fst e = ''unlink'' \<and> entry_of (snd e) \<in> S)) \<longrightarrow>
       filter (\<lambda>x. x \<in> S) (snapshot (registry_events (evs1 @ evs2) w))
         = filter (\<lambda>x. x \<in> S) (snapshot (registry_events evs1 w)))
    \<and> (\<exists>later.
         snapshot (registry_events (evs1 @ evs2) w)
           = filter (never_removed evs2) (snapshot (registry_events evs1 w)) @ later
         \<and> (\<forall>x\<in>set later.
               \<not> (x \<in> set (snapshot (registry_events evs1 w)) \<and> never_removed evs2 x)))"
proof -
  have d: "distinct (dots w)" using assms by simp
  have d1: "distinct (dots (registry_events evs1 w))"
    using d by (rule distinct_registry_events)
  have "distinct (dots (registry_events (evs1 @ evs2) w))"
    using d by (rule distinct_registry_events)
  moreover have "S \<subseteq> set (dots (registry_events evs1 w))
         \<and> (\<forall>e\<in>set evs2. \<not> (fst e = ''unlink'' \<and> entry_of (snd e) \<in> S)) \<longrightarrow>
       filter (\<lambda>x. x \<in> S) (dots (registry_events (evs1 @ evs2) w))
         = filter (\<lambda>x. x \<in> S) (dots (registry_events evs1 w))"
    using filter_registry_events [of S "registry_events evs1 w" evs2]
    by (simp add: registry_events_append)
  moreover have "\<exists>later.
         dots (registry_events (evs1 @ evs2) w)
           = filter (never_removed evs2) (dots (registry_events evs1 w)) @ later
         \<and> (\<forall>x\<in>set later.
               \<not> (x \<in> set (dots (registry_events evs1 w)) \<and> never_removed evs2 x))"
    using registry_events_kept_first [OF d1, of evs2]
    by (simp add: registry_events_append)
  ultimately show ?thesis by (simp add: snapshot_def)
qed

text \<open>
  Entries b and c keep their order and stand first while a is removed and added again,
  and a lands after them.
\<close>

theorem C3_no_duplicates_insertion_order_witness:
  "dots start_world = []
   \<and> {''svg/b.html'', ''svg/c.html''} \<subseteq> set (snapshot (registry_events
        [(''add'', ''public/svg/a.html''), (''add'', ''public/svg/b.html''),
         (''add'', ''public/svg/c.html'')] start_world))
   \<and> filter (\<lambda>x. x \<in> {''svg/b.html'', ''svg/c.html''}) (snapshot (registry_events
        ([(''add'', ''public/svg/a.html''), (''add'', ''public/svg/b.html''),
          (''add'', ''public/svg/c.html'')]
         @ [(''unlink'', ''public/svg/a.html''), (''add'', ''public/svg/a.html'')]) start_world))
     = [''svg/b.html'', ''svg/c.html'']
   \<and> (\<exists>later. snapshot (registry_events
        ([(''add'', ''public/svg/a.html''), (''add'', ''public/svg/b.html''),
          (''add'', ''public/svg/c.html'')]
         @ [(''unlink'', ''public/svg/a.html''), (''add'', ''public/svg/a.html'')]) start_world)
     = [''svg/b.html'', ''svg/c.html''] @ later
     \<and> ''svg/b.html'' \<notin> set later \<and> ''svg/c.html'' \<notin> set later)"
proof -
  let ?evs1 = "[(''add'', ''public/svg/a.html''), (''add'', ''public/svg/b.html''),
          (''add'', ''public/svg/c.html'')]"
  let ?evs2 = "[(''unlink'', ''public/svg/a.html''), (''add'', ''public/svg/a.html'')]"
  let ?S = "{''svg/b.html'', ''svg/c.html''}"
  have e: "dots start_world = []" by (simp add: start_world_def)
  have c: "entry_of ''public/svg/c.html'' = ''svg/c.html''"
    by (simp add: entry_of_def str_replace_def)
  have l: "snapshot (registry_events ?evs1 start_world)
      = [''svg/a.html'', ''svg/b.html'', ''svg/c.html'']"
    by (simp add: snapshot_def dots_registry_watcher entry_of_a entry_of_b c start_world_def)
  have k: "\<forall>e\<in>set ?evs2. \<not> (fst e = ''unlink'' \<and> entry_of (snd e) \<in> ?S)"
    by (simp add: entry_of_a)
  have n: "never_removed ?evs2 ''svg/b.html''" "never_removed ?evs2 ''svg/c.html''"
    "\<not> never_removed ?evs2 ''svg/a.html''"
    by (simp_all add: entry_of_a)
  note inst = C3_no_duplicates_insertion_order [OF e, of ?evs1 ?evs2 ?S]
  have order: "filter (\<lambda>x. x \<in> ?S) (snapshot (registry_events (?evs1 @ ?evs2) start_world))
      = [''svg/b.html'', ''svg/c.html'']"
    using inst l k by simp
  obtain later where
    eq: "snapshot (registry_events (?evs1 @ ?evs2) start_world)
      = filter (never_removed ?evs2) (snapshot (registry_events ?evs1 start_world)) @ later"
    and rest: "\<forall>x\<in>set later.
      \<not> (x \<in> set (snapshot (registry_events ?evs1 start_world)) \<and> never_removed ?evs2 x)"
    using inst by blast
  have kept: "filter (never_removed ?evs2) (snapshot (registry_events ?evs1 start_world))
      = [''svg/b.html'', ''svg/c.html'']"
    unfolding l using n by simp
  have "''svg/b.html'' \<notin> set later" and "''svg/c.html'' \<notin> set later"
    using rest n unfolding l by auto
  with eq kept have "\<exists>later. snapshot (registry_events (?evs1 @ ?evs2) start_world)
      = [''svg/b.html'', ''svg/c.html''] @ later
     \<and> ''svg/b.html'' \<notin> set later \<and> ''svg/c.html'' \<notin> set later"
    by metis
  with e l order show ?thesis by simp
qed

text \<open>
  Claim C4: an add of a path already in the registry, and a removal of a path not in it,
  leave the entries exactly as they are.
\<close>

theorem C4_idempotent_noops:
  "(event = ''add'' \<and> entry_of path \<in> set (dots w))
   \<or> (event = ''unlink'' \<and> entry_of path \<notin> set (dots w))
   \<Longrightarrow> dots (registry_watcher event path w) = dots w"
  by (auto simp: dots_registry_watcher)

text \<open>A second add of a, and a removal of a from the empty registry.\<close>

theorem C4_idempotent_noops_witness:
  "entry_of ''public/svg/a.html''
     \<in> set (dots (registry_watcher ''add'' ''public/svg/a.html'' start_world))
   \<and> dots (registry_watcher ''add'' ''public/svg/a.html''
        (registry_watcher ''add'' ''public/svg/a.html'' start_world))
     = dots (registry_watcher ''add'' ''public/svg/a.html'' start_world)
   \<and> entry_of ''public/svg/a.html'' \<notin> set (dots start_world)
   \<and> dots (registry_watcher ''unlink'' ''public/svg/a.html'' start_world) = dots start_world"
proof -
  have p: "entry_of ''public/svg/a.html''
     \<in> set (dots (registry_watcher ''add'' ''public/svg/a.html'' start_world))"
    by (simp add: dots_registry_watcher start_world_def)
  have a: "entry_of ''public/svg/a.html'' \<notin> set (dots start_world)"
    by (simp add: start_world_def)
  show ?thesis
    using C4_idempotent_noops [of "''add''" "''public/svg/a.html''"
        "registry_watcher ''add'' ''public/svg/a.html'' start_world"]
      C4_idempotent_noops [of "''unlink''" "''public/svg/a.html''" start_world] p a
    by simp
qed

text \<open>
  Claim C5: a removal takes out the entry and keeps the others in their order; an add of a
  path not in the registry appends it at the end; and the scenario add a, add b, remove a,
  add a gives the snapshots \<open>[a]\<close>, \<open>[a, b]\<close>, \<open>[b]\<close> and \<open>[b, a]\<close>.
\<close>

theorem C5_removal_keeps_order_readd_appends:
  "dots (registry_watcher ''unlink'' path w) = remove1 (entry_of path) (dots w)
   \<and> subseq (dots (registry_watcher ''unlink'' path w)) (dots w)
   \<and> (entry_of path \<notin> set (dots w) \<longrightarrow>
        dots (registry_watcher ''add'' path w) = dots w @ [entry_of path])
   \<and> snapshot (registry_events [(''add'', ''public/svg/a.html'')] start_world)
       = [''svg/a.html'']
   \<and> snapshot (registry_events
        [(''add'', ''public/svg/a.html''), (''add'', ''public/svg/b.html'')] start_world)
       = [''svg/a.html'', ''svg/b.html'']
   \<and> snapshot (registry_events
        [(''add'', ''public/svg/a.html''), (''add'', ''public/svg/b.html''),
         (''unlink'', ''public/svg/a.html'')] start_world)
       = [''svg/b.html'']
   \<and> snapshot (registry_events
        [(''add'', ''public/svg/a.html''), (''add'', ''public/svg/b.html''),
         (''unlink'', ''public/svg/a.html''), (''add'', ''public/svg/a.html'')] start_world)
       = [''svg/b.html'', ''svg/a.html'']"
proof -
  have r: "dots (registry_watcher ''unlink'' path w) = remove1 (entry_of path) (dots w)"
    by (simp add: dots_registry_watcher remove1_idem)
  have s: "subseq (dots (registry_watcher ''unlink'' path w)) (dots w)"
    unfolding r by (rule subseq_remove1)
  show ?thesis
    using r s
    by (simp add: snapshot_def dots_registry_watcher entry_of_a entry_of_b start_world_def)
qed

text \<open>An add of a to the empty registry.\<close>

theorem C5_removal_keeps_order_readd_appends_witness:
  "entry_of ''public/svg/a.html'' \<notin> set (dots start_world)
   \<and> dots (registry_watcher ''add'' ''public/svg/a.html'' start_world) = [''svg/a.html'']"
  using C5_removal_keeps_order_readd_appends [of "''public/svg/a.html''" start_world]
  by (simp add: start_world_def entry_of_a)


section \<open>Facts about the string primitives\<close>

lemma str_indexOf_first:
  "\<forall>j<length pre. \<not> prefix pat (drop j (pre @ rest)) \<Longrightarrow> prefix pat rest \<Longrightarrow>
   str_indexOf (pre @ rest) pat = Some (length pre)"
proof (induction pre)
  case Nil
  then show ?case by (cases rest) auto
next
  case (Cons c cs)
  have "\<not> prefix pat (c # cs @ rest)"
    using Cons.prems(1) by force
  moreover have "\<forall>j<length cs. \<not> prefix pat (drop j (cs @ rest))"
  proof (intro allI impI)
    fix j assume "j < length cs"
    then have "Suc j < length (c # cs)" by simp
    then have "\<not> prefix pat (drop (Suc j) ((c # cs) @ rest))"
      using Cons.prems(1) by blast
    then show "\<not> prefix pat (drop j (cs @ rest))" by simp
  qed
  ultimately show ?case
    using Cons.IH Cons.prems(2) by simp
qed

lemma str_indexOf_None: "str_indexOf s pat = None \<longleftrightarrow> \<not> sublist pat s"
  by (induction s) (auto simp: sublist_Cons_right)

lemma single_occurrence_is_first:
  assumes one: "occurrences (pre @ pat @ post) pat = 1"
  shows "\<forall>j<length pre. \<not> prefix pat (drop j (pre @ pat @ post))"
proof (intro allI impI notI)
  fix j assume j: "j < length pre" and p: "prefix pat (drop j (pre @ pat @ post))"
  let ?s = "pre @ pat @ post"
  let ?F = "filter (\<lambda>i. prefix pat (drop i ?s)) [0..<Suc (length ?s)]"
  have "length pre \<in> set ?F" by simp
  moreover have "j \<in> set ?F" using j p by simp
  ultimately have "{j, length pre} \<subseteq> set ?F" by blast
  then have "card {j, length pre} \<le> card (set ?F)"
    by (intro card_mono) simp_all
  moreover have "card {j, length pre} = 2" using j by simp
  moreover have "card (set ?F) = length ?F"
    by (intro distinct_card) simp
  ultimately have "2 \<le> length ?F" by simp
  then show False using one by (simp add: occurrences_def)
qed

lemma get_substitution_plain:
  "CHR ''$'' \<notin> set repl \<Longrightarrow> get_substitution matched preceding following repl = repl"
  by (induction matched preceding following repl rule: get_substitution.induct) auto

lemma str_replace_at:
  "str_indexOf (pre @ pat @ post) pat = Some (length pre) \<Longrightarrow> CHR ''$'' \<notin> set repl \<Longrightarrow>
   str_replace (pre @ pat @ post) pat repl = pre @ repl @ post"
  by (simp add: str_replace_def get_substitution_plain)

lemma str_replace_absent: "\<not> sublist pat s \<Longrightarrow> str_replace s pat repl = s"
  using str_indexOf_None [of s pat] by (simp add: str_replace_def)

lemma dot_not_straddling:
  "\<not> prefix ''.dot'' (c # cs) \<Longrightarrow> \<not> prefix ''.dot'' (c # cs @ ''.dot'' @ post)"
proof (cases cs)
  case Nil
  then show ?thesis by simp
next
  case (Cons a as)
  note cs = this
  show "\<not> prefix ''.dot'' (c # cs) \<Longrightarrow> ?thesis"
  proof (cases as)
    case Nil
    then show ?thesis using cs by simp
  next
    case (Cons b bs)
    note as = this
    show "\<not> prefix ''.dot'' (c # cs) \<Longrightarrow> ?thesis"
    proof (cases bs)
      case Nil
      then show ?thesis using cs as by simp
    next
      case (Cons d ds)
      assume "\<not> prefix ''.dot'' (c # cs)"
      then show ?thesis using cs as Cons by simp
    qed
  qed
qed

lemma str_indexOf_dot:
  "\<not> sublist ''.dot'' pre \<Longrightarrow> str_indexOf (pre @ ''.dot'' @ post) ''.dot'' = Some (length pre)"
proof (induction pre)
  case Nil
  then show ?case by simp
next
  case (Cons c cs)
  have np: "\<not> prefix ''.dot'' (c # cs)" and ns: "\<not> sublist ''.dot'' cs"
    using Cons.prems by (simp_all add: sublist_Cons_right)
  have "\<not> prefix ''.dot'' (c # cs @ ''.dot'' @ post)"
    using np by (rule dot_not_straddling)
  then show ?case using Cons.IH [OF ns] by simp
qed

lemma replace_dot:
  "\<not> sublist ''.dot'' pre \<Longrightarrow> CHR ''$'' \<notin> set repl \<Longrightarrow>
   str_replace (pre @ ''.dot'' @ post) ''.dot'' repl = pre @ repl @ post"
  by (rule str_replace_at [OF str_indexOf_dot])

section \<open>The render pipeline\<close>

lemma svg_file_pipeline:
  "basename dotFile = ''pipeline.dot'' \<Longrightarrow> svg_file dotFile = ''./public/svg/pipeline.svg''"
  by (simp add: svg_file_def svgDir_def str_replace_def)

lemma html_file_pipeline:
  "basename dotFile = ''pipeline.dot'' \<Longrightarrow> html_file dotFile = ''./public/svg/pipeline.html''"
  by (simp add: html_file_def svgDir_def str_replace_def)

lemma graphHtml_pipeline:
  assumes b: "basename dotFile = ''pipeline.dot''"
    and one: "occurrences (pre @ ''{{ svg_file_path }}'' @ post) ''{{ svg_file_path }}'' = 1"
  shows "graphHtml (pre @ ''{{ svg_file_path }}'' @ post) dotFile = pre @ ''pipeline.svg'' @ post"
proof -
  have name: "str_replace (basename dotFile) ''.dot'' ''.svg'' = ''pipeline.svg''"
    using b by (simp add: str_replace_def)
  have first: "str_indexOf (pre @ ''{{ svg_file_path }}'' @ post) ''{{ svg_file_path }}''
      = Some (length pre)"
    using single_occurrence_is_first [OF one]
    by (rule str_indexOf_first) simp
  have "str_replace (pre @ ''{{ svg_file_path }}'' @ post) ''{{ svg_file_path }}'' ''pipeline.svg''
      = pre @ ''pipeline.svg'' @ post"
    using first by (rule str_replace_at) simp
  then show ?thesis by (simp add: graphHtml_def name)
qed

lemma rm_if_exists:
  "(if existsSync w p then rmSync w p else Inr w) = Inr (w\<lparr>files := (files w)(p := None)\<rparr>)"
proof (cases "files w p")
  case None
  then have "(files w)(p := None) = files w" by (simp add: fun_upd_idem)
  then show ?thesis using None by (simp add: existsSync_def)
next
  case (Some c)
  then show ?thesis by (simp add: existsSync_def rmSync_def)
qed

lemma source_watcher_unlink:
  "source_watcher env ''unlink'' dotFile w
     = Inr (w\<lparr>files := (files w)(svg_file dotFile := None, html_file dotFile := None)\<rparr>)"
proof -
  have "source_watcher env ''unlink'' dotFile w
      = (case (if existsSync w (svg_file dotFile) then rmSync w (svg_file dotFile) else Inr w) of
           Inl e \<Rightarrow> Inl e
         | Inr w1 \<Rightarrow>
             (if existsSync w1 (html_file dotFile) then rmSync w1 (html_file dotFile)
              else Inr w1))"
    by (simp add: source_watcher_def)
  then show ?thesis by (simp only: rm_if_exists) simp
qed

lemma render_before_other: "q \<noteq> p \<Longrightarrow> render_before r p fs q = fs q"
  by (cases r) simp_all

lemma render_after_other: "q \<noteq> p \<Longrightarrow> render_after r p fs q = fs q"
  by (cases r) simp_all

lemma source_watcher_add:
  "source_watcher env ''add'' dotFile w =
     (case template_read env of
        Inl err \<Rightarrow>
          Inr (w\<lparr>spawned := spawned w
                   @ [(''dot'', [''-Tsvg'', dotFile, ''-o'', svg_file dotFile])],
                 files := render_after (rendering env) (svg_file dotFile)
                   (render_before (rendering env) (svg_file dotFile) (files w)),
                 console := console w @ [Console_error err]\<rparr>)
      | Inr template \<Rightarrow>
          (case page_write env of
             Write_failed err left \<Rightarrow>
               Inr (w\<lparr>spawned := spawned w
                        @ [(''dot'', [''-Tsvg'', dotFile, ''-o'', svg_file dotFile])],
                      files := render_after (rendering env) (svg_file dotFile)
                        ((render_before (rendering env) (svg_file dotFile) (files w))
                           (html_file dotFile := left)),
                      console := console w @ [Console_error err]\<rparr>)
           | Write_ok \<Rightarrow>
               Inr (w\<lparr>spawned := spawned w
                        @ [(''dot'', [''-Tsvg'', dotFile, ''-o'', svg_file dotFile])],
                      files := render_after (rendering env) (svg_file dotFile)
                        ((render_before (rendering env) (svg_file dotFile) (files w))
                           (html_file dotFile \<mapsto> graphHtml template dotFile)),
                      console := console w
                        @ [Console_log (html_file dotFile @ '' has been saved!'')]\<rparr>)))"
  by (simp add: source_watcher_def Let_def split: sum.splits write_result.splits)

lemma source_watcher_other:
  "event \<noteq> ''add'' \<Longrightarrow> event \<noteq> ''unlink'' \<Longrightarrow> source_watcher env event dotFile w = Inr w"
  by (simp add: source_watcher_def)

text \<open>
  Claim C6: on an add event for a description file whose base name is \<open>pipeline.dot\<close>, the
  derived paths are \<open>./public/svg/pipeline.svg\<close> and \<open>./public/svg/pipeline.html\<close>, the
  renderer is spawned with the image path as its output, and, the template having been
  read and holding the token exactly once, the page handed to \<^verbatim>\<open>fs.writeFile\<close> (and found
  at the wrapper-page path once the write has succeeded) is the template with the token
  replaced by \<open>pipeline.svg\<close>.
\<close>

theorem C6_pipeline_artifacts:
  assumes b: "basename dotFile = ''pipeline.dot''"
    and r: "template_read env = Inr (pre @ ''{{ svg_file_path }}'' @ post)"
    and one: "occurrences (pre @ ''{{ svg_file_path }}'' @ post) ''{{ svg_file_path }}'' = 1"
  shows "svg_file dotFile = ''./public/svg/pipeline.svg''
    \<and> html_file dotFile = ''./public/svg/pipeline.html''
    \<and> graphHtml (pre @ ''{{ svg_file_path }}'' @ post) dotFile = pre @ ''pipeline.svg'' @ post
    \<and> (\<exists>w'. source_watcher env ''add'' dotFile w = Inr w'
          \<and> spawned w' = spawned w
                @ [(''dot'', [''-Tsvg'', dotFile, ''-o'', ''./public/svg/pipeline.svg''])]
          \<and> (page_write env = Write_ok \<longrightarrow>
                files w' ''./public/svg/pipeline.html'' = Some (pre @ ''pipeline.svg'' @ post)))"
proof -
  note s = svg_file_pipeline [OF b]
  note h = html_file_pipeline [OF b]
  note g = graphHtml_pipeline [OF b one]
  have "\<exists>w'. source_watcher env ''add'' dotFile w = Inr w'
          \<and> spawned w' = spawned w
                @ [(''dot'', [''-Tsvg'', dotFile, ''-o'', ''./public/svg/pipeline.svg''])]
          \<and> (page_write env = Write_ok \<longrightarrow>
                files w' ''./public/svg/pipeline.html'' = Some (pre @ ''pipeline.svg'' @ post))"
    using r s h g
    by (cases "page_write env")
      (simp_all add: source_watcher_add render_after_other render_before_other)
  with s h g show ?thesis by blast
qed

text \<open>The template \<open><img src={{ svg_file_path }}>\<close> and the file \<open>/tmp/dots/pipeline.dot\<close>.\<close>

theorem C6_pipeline_artifacts_witness:
  "basename ''/tmp/dots/pipeline.dot'' = ''pipeline.dot''
   \<and> occurrences (''<img src='' @ ''{{ svg_file_path }}'' @ ''>'') ''{{ svg_file_path }}'' = 1
   \<and> (\<exists>w'. source_watcher
           \<lparr>template_read = Inr (''<img src='' @ ''{{ svg_file_path }}'' @ ''>''),
            page_write = Write_ok,
            rendering = Image_after ''<svg/>''\<rparr> ''add'' ''/tmp/dots/pipeline.dot'' start_world = Inr w'
         \<and> files w' ''./public/svg/pipeline.html'' = Some ''<img src=pipeline.svg>'')"
proof -
  have b: "basename ''/tmp/dots/pipeline.dot'' = ''pipeline.dot''"
    by (simp add: basename_def)
  have r: "template_read \<lparr>template_read = Inr (''<img src='' @ ''{{ svg_file_path }}'' @ ''>''),
            page_write = Write_ok,
            rendering = Image_after ''<svg/>''\<rparr> = Inr (''<img src='' @ ''{{ svg_file_path }}'' @ ''>'')"
    by simp
  have one: "occurrences (''<img src='' @ ''{{ svg_file_path }}'' @ ''>'') ''{{ svg_file_path }}'' = 1"
    by (simp add: occurrences_def upt_conv_Cons)
  show ?thesis
    using C6_pipeline_artifacts [OF b r one, of start_world] b one
    by auto
qed

text \<open>
  Claim C7: on an unlink event the handler throws nothing, whichever of the two derived
  files exist; afterwards neither derived path exists, every other file is as it was, and
  nothing has been printed.
\<close>

theorem C7_idempotent_delete:
  "\<exists>w'. source_watcher env ''unlink'' dotFile w = Inr w'
     \<and> files w' (svg_file dotFile) = None
     \<and> files w' (html_file dotFile) = None
     \<and> (\<forall>p. p \<noteq> svg_file dotFile \<and> p \<noteq> html_file dotFile \<longrightarrow> files w' p = files w p)
     \<and> console w' = console w"
  by (simp add: source_watcher_unlink)

text \<open>The image exists, the wrapper page does not, and a page of another graph stays.\<close>

theorem C7_idempotent_delete_witness:
  "\<exists>w'. source_watcher \<lparr>template_read = Inl ''ENOENT'', page_write = Write_ok,
            rendering = Image_after ''<svg/>''\<rparr> ''unlink''
        ''/tmp/dots/pipeline.dot''
        (start_world\<lparr>files := [''./public/svg/pipeline.svg'' \<mapsto> ''<svg/>'',
                               ''./public/svg/other.html'' \<mapsto> ''<html/>'']\<rparr>) = Inr w'
     \<and> files w' ''./public/svg/pipeline.svg'' = None
     \<and> files w' ''./public/svg/pipeline.html'' = None
     \<and> files w' ''./public/svg/other.html'' = Some ''<html/>''
     \<and> console w' = []"
proof -
  let ?env = "\<lparr>template_read = Inl ''ENOENT'', page_write = Write_ok,
            rendering = Image_after ''<svg/>''\<rparr>"
  let ?f = "''/tmp/dots/pipeline.dot''"
  let ?w = "start_world\<lparr>files := [''./public/svg/pipeline.svg'' \<mapsto> ''<svg/>'',
                               ''./public/svg/other.html'' \<mapsto> ''<html/>'']\<rparr>"
  have b: "basename ?f = ''pipeline.dot''"
    by (simp add: basename_def)
  note s = svg_file_pipeline [OF b]
  note h = html_file_pipeline [OF b]
  obtain w' where run: "source_watcher ?env ''unlink'' ?f ?w = Inr w'"
    and svg: "files w' (svg_file ?f) = None"
    and html: "files w' (html_file ?f) = None"
    and frame: "\<forall>p. p \<noteq> svg_file ?f \<and> p \<noteq> html_file ?f \<longrightarrow> files w' p = files ?w p"
    and con: "console w' = console ?w"
    using C7_idempotent_delete [of ?env ?f ?w] by blast
  have other: "files w' ''./public/svg/other.html'' = files ?w ''./public/svg/other.html''"
    using frame [rule_format, of "''./public/svg/other.html''"] by (simp add: s h)
  have "files w' ''./public/svg/pipeline.svg'' = None"
    and "files w' ''./public/svg/pipeline.html'' = None"
    and "files w' ''./public/svg/other.html'' = Some ''<html/>''"
    and "console w' = []"
    using svg html other con by (simp_all add: s h start_world_def)
  with run show ?thesis by blast
qed

text \<open>
  Claim C8: whatever the event, the source watcher callback returns without throwing and
  leaves \<open>dots\<close> and the refresh signals as they were; of the files, only the two derived
  paths can differ afterwards.
\<close>

theorem C8_registry_untouched:
  "\<exists>w'. source_watcher env event dotFile w = Inr w'
     \<and> dots w' = dots w
     \<and> refreshes w' = refreshes w
     \<and> (\<forall>p. p \<noteq> svg_file dotFile \<and> p \<noteq> html_file dotFile \<longrightarrow> files w' p = files w p)"
proof -
  consider "event = ''add''" | "event = ''unlink''" | "event \<noteq> ''add''" "event \<noteq> ''unlink''"
    by blast
  then show ?thesis
  proof cases
    case 1
    then show ?thesis
      by (cases "template_read env"; cases "page_write env")
        (simp_all add: source_watcher_add render_after_other render_before_other)
  next
    case 2
    then show ?thesis by (simp add: source_watcher_unlink)
  next
    case 3
    then show ?thesis by (simp add: source_watcher_other)
  qed
qed

text \<open>An add event with a registry and an output directory that already hold another page.\<close>

theorem C8_registry_untouched_witness:
  "\<exists>w'. source_watcher \<lparr>template_read = Inr ''{{ svg_file_path }}'', page_write = Write_ok,
            rendering = Image_after ''<svg/>''\<rparr>
        ''add'' ''/tmp/dots/pipeline.dot''
        (start_world\<lparr>dots := [''svg/other.html''],
                      files := [''./public/svg/other.html'' \<mapsto> ''<html/>'']\<rparr>) = Inr w'
     \<and> dots w' = [''svg/other.html'']
     \<and> refreshes w' = []
     \<and> files w' ''./public/svg/other.html'' = Some ''<html/>''"
proof -
  let ?env = "\<lparr>template_read = Inr ''{{ svg_file_path }}'', page_write = Write_ok,
            rendering = Image_after ''<svg/>''\<rparr>"
  let ?f = "''/tmp/dots/pipeline.dot''"
  let ?w = "start_world\<lparr>dots := [''svg/other.html''],
                      files := [''./public/svg/other.html'' \<mapsto> ''<html/>'']\<rparr>"
  have b: "basename ?f = ''pipeline.dot''"
    by (simp add: basename_def)
  note s = svg_file_pipeline [OF b]
  note h = html_file_pipeline [OF b]
  obtain w' where run: "source_watcher ?env ''add'' ?f ?w = Inr w'"
    and reg: "dots w' = dots ?w"
    and sig: "refreshes w' = refreshes ?w"
    and frame: "\<forall>p. p \<noteq> svg_file ?f \<and> p \<noteq> html_file ?f \<longrightarrow> files w' p = files ?w p"
    using C8_registry_untouched [of ?env "''add''" ?f ?w] by blast
  have other: "files w' ''./public/svg/other.html'' = files ?w ''./public/svg/other.html''"
    using frame [rule_format, of "''./public/svg/other.html''"] by (simp add: s h)
  have "dots w' = [''svg/other.html'']"
    and "refreshes w' = []"
    and "files w' ''./public/svg/other.html'' = Some ''<html/>''"
    using reg sig other by (simp_all add: start_world_def)
  with run show ?thesis by blast
qed

text \<open>
  Claim C9: only the first \<open>.dot\<close> of the base name is replaced. The base name
  \<open>a.dot.dot\<close> gives \<open>a.svg.dot\<close> and \<open>a.html.dot\<close>; in general what follows the first
  \<open>.dot\<close> is kept as it is; and a base name that ends in \<open>dot\<close> without containing
  \<open>.dot\<close> is kept whole, so that the image path and the wrapper-page path are the same.
\<close>

theorem C9_first_occurrence_only:
  "(basename dotFile = ''a.dot.dot'' \<longrightarrow>
      svg_file dotFile = ''./public/svg/a.svg.dot''
      \<and> html_file dotFile = ''./public/svg/a.html.dot'')
   \<and> (basename dotFile = pre @ ''.dot'' @ post \<and> \<not> sublist ''.dot'' pre \<longrightarrow>
      svg_file dotFile = svgDir @ pre @ ''.svg'' @ post
      \<and> html_file dotFile = svgDir @ pre @ ''.html'' @ post)
   \<and> (suffix ''dot'' (basename dotFile) \<and> \<not> sublist ''.dot'' (basename dotFile) \<longrightarrow>
      svg_file dotFile = svgDir @ basename dotFile
      \<and> html_file dotFile = svgDir @ basename dotFile
      \<and> svg_file dotFile = html_file dotFile)"
proof (intro conjI impI)
  assume "basename dotFile = ''a.dot.dot''"
  then show "svg_file dotFile = ''./public/svg/a.svg.dot''"
    and "html_file dotFile = ''./public/svg/a.html.dot''"
    by (simp_all add: svg_file_def html_file_def svgDir_def str_replace_def)
next
  assume a: "basename dotFile = pre @ ''.dot'' @ post \<and> \<not> sublist ''.dot'' pre"
  then have "str_replace (basename dotFile) ''.dot'' ''.svg'' = pre @ ''.svg'' @ post"
    and "str_replace (basename dotFile) ''.dot'' ''.html'' = pre @ ''.html'' @ post"
    using replace_dot [of pre "''.svg''" post] replace_dot [of pre "''.html''" post]
    by simp_all
  then show "svg_file dotFile = svgDir @ pre @ ''.svg'' @ post"
    and "html_file dotFile = svgDir @ pre @ ''.html'' @ post"
    by (simp_all add: svg_file_def html_file_def)
next
  assume a: "suffix ''dot'' (basename dotFile) \<and> \<not> sublist ''.dot'' (basename dotFile)"
  then show "svg_file dotFile = svgDir @ basename dotFile"
    and "html_file dotFile = svgDir @ basename dotFile"
    and "svg_file dotFile = html_file dotFile"
    by (simp_all add: svg_file_def html_file_def str_replace_absent)
qed

text \<open>The files \<open>/tmp/dots/a.dot.dot\<close> and \<open>/tmp/dots/adot\<close>.\<close>

theorem C9_first_occurrence_only_witness:
  "basename ''/tmp/dots/a.dot.dot'' = ''a'' @ ''.dot'' @ ''.dot''
   \<and> \<not> sublist ''.dot'' ''a''
   \<and> svg_file ''/tmp/dots/a.dot.dot'' = ''./public/svg/a.svg.dot''
   \<and> html_file ''/tmp/dots/a.dot.dot'' = ''./public/svg/a.html.dot''
   \<and> suffix ''dot'' (basename ''/tmp/dots/adot'')
   \<and> \<not> sublist ''.dot'' (basename ''/tmp/dots/adot'')
   \<and> svg_file ''/tmp/dots/adot'' = ''./public/svg/adot''
   \<and> html_file ''/tmp/dots/adot'' = ''./public/svg/adot''"
proof -
  have b1: "basename ''/tmp/dots/a.dot.dot'' = ''a.dot.dot''"
    by (simp add: basename_def)
  have b2: "basename ''/tmp/dots/adot'' = ''adot''"
    by (simp add: basename_def)
  have n1: "\<not> sublist ''.dot'' ''a''"
    by (simp add: sublist_Cons_right)
  have n2: "\<not> sublist ''.dot'' ''adot''"
    by (simp add: sublist_Cons_right)
  have s2: "suffix ''dot'' ''adot''"
    by (simp add: suffix_def)
  show ?thesis
    using C9_first_occurrence_only [of "''/tmp/dots/a.dot.dot''" "''a''" "''.dot''"]
      C9_first_occurrence_only [of "''/tmp/dots/adot''" "''a''" "''.dot''"]
      b1 b2 n1 n2 s2
    by (simp add: svgDir_def)
qed

lemma derived_paths_differ:
  assumes "sublist ''.dot'' (basename dotFile)"
  shows "html_file dotFile \<noteq> svg_file dotFile"
proof -
  obtain i where "str_indexOf (basename dotFile) ''.dot'' = Some i"
    using assms str_indexOf_None [of "basename dotFile" "''.dot''"] by auto
  then show ?thesis
    by (simp add: svg_file_def html_file_def str_replace_def)
qed

text \<open>
  Claim C10, as stated, fails: for the watched file \<open>adot\<close> the wrapper-page path is the
  image path, and when the template cannot be read the renderer still puts its image
  there, so the path does not hold what it held before.
\<close>

theorem C10_wrapper_path_counterexample:
  "template_read \<lparr>template_read = Inl ''ENOENT'', page_write = Write_ok,
       rendering = Image_before ''<svg/>''\<rparr> = Inl ''ENOENT''
   \<and> \<not> isl (source_watcher \<lparr>template_read = Inl ''ENOENT'', page_write = Write_ok,
       rendering = Image_before ''<svg/>''\<rparr> ''add'' ''/tmp/dots/adot'' start_world)
   \<and> files (projr (source_watcher \<lparr>template_read = Inl ''ENOENT'', page_write = Write_ok,
       rendering = Image_before ''<svg/>''\<rparr> ''add'' ''/tmp/dots/adot'' start_world))
         (html_file ''/tmp/dots/adot'') = Some ''<svg/>''
   \<and> files start_world (html_file ''/tmp/dots/adot'') = None"
  by (simp add: source_watcher_add start_world_def basename_def svg_file_def html_file_def
      svgDir_def str_replace_def)

text \<open>
  Claim C10, amended: when the template cannot be read on an add event, the error is
  printed and the wrapper page is not written: whatever the write would have answered, the
  outcome is the same, and no file but the image of the renderer can differ afterwards.
  For a description file whose base name contains \<open>.dot\<close> the wrapper-page path therefore
  holds what it held before, and when the renderer produces no image no file changes at
  all.
\<close>

theorem C10_failed_read_no_page_write:
  assumes "template_read env = Inl err"
  shows "\<exists>w'. source_watcher env ''add'' dotFile w = Inr w'
     \<and> source_watcher (env\<lparr>page_write := outcome\<rparr>) ''add'' dotFile w = Inr w'
     \<and> console w' = console w @ [Console_error err]
     \<and> (\<forall>p. p \<noteq> svg_file dotFile \<longrightarrow> files w' p = files w p)
     \<and> (sublist ''.dot'' (basename dotFile) \<longrightarrow>
           files w' (html_file dotFile) = files w (html_file dotFile))
     \<and> (rendering env = No_image \<longrightarrow> files w' = files w)"
proof -
  let ?w = "w\<lparr>spawned := spawned w
                   @ [(''dot'', [''-Tsvg'', dotFile, ''-o'', svg_file dotFile])],
                 files := render_after (rendering env) (svg_file dotFile)
                   (render_before (rendering env) (svg_file dotFile) (files w)),
                 console := console w @ [Console_error err]\<rparr>"
  have run: "source_watcher env ''add'' dotFile w = Inr ?w"
    using assms by (simp add: source_watcher_add)
  have same: "source_watcher (env\<lparr>page_write := outcome\<rparr>) ''add'' dotFile w = Inr ?w"
    using assms by (simp add: source_watcher_add)
  have frame: "\<forall>p. p \<noteq> svg_file dotFile \<longrightarrow> files ?w p = files w p"
    by (simp add: render_after_other render_before_other)
  have page: "sublist ''.dot'' (basename dotFile) \<longrightarrow>
      files ?w (html_file dotFile) = files w (html_file dotFile)"
    using frame derived_paths_differ [of dotFile] by blast
  have none: "rendering env = No_image \<longrightarrow> files ?w = files w"
    by simp
  have con: "console ?w = console w @ [Console_error err]"
    by simp
  from run same con frame page none show ?thesis by blast
qed

text \<open>
  A missing template for \<open>/tmp/dots/pipeline.dot\<close>, with a renderer that writes its image
  and with one that does not.
\<close>

theorem C10_failed_read_no_page_write_witness:
  "template_read \<lparr>template_read = Inl ''ENOENT'', page_write = Write_ok,
       rendering = Image_after ''<svg/>''\<rparr> = Inl ''ENOENT''
   \<and> sublist ''.dot'' (basename ''/tmp/dots/pipeline.dot'')
   \<and> (\<exists>w'. source_watcher \<lparr>template_read = Inl ''ENOENT'', page_write = Write_ok,
            rendering = Image_after ''<svg/>''\<rparr>
          ''add'' ''/tmp/dots/pipeline.dot'' start_world = Inr w'
        \<and> files w' ''./public/svg/pipeline.html'' = None
        \<and> console w' = [Console_error ''ENOENT''])
   \<and> rendering \<lparr>template_read = Inl ''ENOENT'', page_write = Write_ok,
       rendering = No_image\<rparr> = No_image
   \<and> (\<exists>w'. source_watcher \<lparr>template_read = Inl ''ENOENT'', page_write = Write_ok,
            rendering = No_image\<rparr>
          ''add'' ''/tmp/dots/pipeline.dot'' start_world = Inr w'
        \<and> files w' = files start_world)"
proof -
  let ?env = "\<lparr>template_read = Inl ''ENOENT'', page_write = Write_ok,
       rendering = Image_after ''<svg/>''\<rparr>"
  let ?quiet = "\<lparr>template_read = Inl ''ENOENT'', page_write = Write_ok,
       rendering = No_image\<rparr>"
  let ?f = "''/tmp/dots/pipeline.dot''"
  have r: "template_read ?env = Inl ''ENOENT''" by simp
  have q: "template_read ?quiet = Inl ''ENOENT''" by simp
  have b: "basename ?f = ''pipeline.dot''"
    by (simp add: basename_def)
  have sub: "sublist ''.dot'' (basename ?f)"
    unfolding b by (simp add: sublist_Cons_right)
  note h = html_file_pipeline [OF b]
  obtain w' where run: "source_watcher ?env ''add'' ?f start_world = Inr w'"
    and con: "console w' = console start_world @ [Console_error ''ENOENT'']"
    and page: "sublist ''.dot'' (basename ?f) \<longrightarrow>
      files w' (html_file ?f) = files start_world (html_file ?f)"
    using C10_failed_read_no_page_write [OF r, of ?f start_world Write_ok] by blast
  have first: "\<exists>w'. source_watcher ?env ''add'' ?f start_world = Inr w'
        \<and> files w' ''./public/svg/pipeline.html'' = None
        \<and> console w' = [Console_error ''ENOENT'']"
    using run con page sub by (auto simp: h start_world_def)
  obtain v where runq: "source_watcher ?quiet ''add'' ?f start_world = Inr v"
    and noneq: "rendering ?quiet = No_image \<longrightarrow> files v = files start_world"
    using C10_failed_read_no_page_write [OF q, of ?f start_world Write_ok] by blast
  have second: "\<exists>w'. source_watcher ?quiet ''add'' ?f start_world = Inr w'
        \<and> files w' = files start_world"
    using runq noneq by auto
  from r sub first second show ?thesis by simp
qed

end
